theory Spec2Isabelle
  imports Main
begin

section \<open>The model\<close>

subsection \<open>The Remote proxy (src/wrap.ts)\<close>

text \<open>
  \<open>wrap\<close> builds a proxy over the connection of a channel. The consumers of a call are
  passive: they record what they are given and do not call back into the remote while
  being notified.
\<close>

text \<open>
  Modelled from the spec: the channel (\<open>./channel\<close>) is not among the sources. Its
  connection offers \<open>send\<close>, the inbound stream \<open>observe\<close> and \<open>close\<close>. The model records
  every \<open>connection.send\<close> in the list \<open>sent\<close>, counts the calls of \<open>connection.close\<close>, and
  takes the responses of \<open>connection.observe\<close> as events from outside (a hot stream: a
  response reaches the subscribers that listen when it arrives).
\<close>

text \<open>A property key of the proxy's \<open>get\<close> trap: a string or a symbol.\<close>

datatype property_key = Str string | Sym nat

text \<open>A request: kind \<open>"S"\<close> with id, command and data, or kind \<open>"U"\<close> with the id.\<close>

datatype ('i, 'a) request = Start 'i string "'a list" | Stop 'i

text \<open>
  Modelled from the spec: the type \<open>Response\<close> (\<open>./types\<close>) is not among the sources. A
  response carries an id and a materialized notification: a value (kind \<open>"N"\<close>), an error
  (\<open>"E"\<close>) or a completion (\<open>"C"\<close>); \<open>dematerialize\<close> turns the notification back into an
  observer call.
\<close>

datatype 'a notification = N 'a | E string | C

datatype 'a observer_event = Next 'a | Error string | Complete

fun dematerialize :: "'a notification \<Rightarrow> 'a observer_event" where
  "dematerialize (N v) = Next v"
| "dematerialize (E e) = Error e"
| "dematerialize C = Complete"

text \<open>
  Who consumes a subscription: an observer given to \<open>subscribe\<close>, or the subscriber of
  \<open>firstValueFrom\<close> (behind the lazy promise), which resolves on the first value and
  unsubscribes at once.
\<close>

datatype consumer = Observer | FirstValueFrom

text \<open>
  One subscription of a call's observable. The inner \<open>observable.subscribe(subscriber)\<close>
  is given the subscriber itself, so the whole chain is one subscriber: \<open>sub_closed\<close> is
  its \<open>closed\<close> flag, \<open>received\<close> what reached the consumer.
\<close>

record ('i, 'a) subscriber =
  call_id :: 'i
  consumer :: consumer
  sub_closed :: bool
  received :: "'a observer_event list"

text \<open>
  The value returned by an invocation: the command and data the closure captured, and the
  lazy promise (\<open>PLazy\<close>), which holds the index of its subscriber once it was started.
\<close>

record 'a call =
  command :: string
  data :: "'a list"
  promise :: "nat option"

record ('i, 'g, 'a) remote =
  closed :: bool
  generator :: 'g
  sent :: "('i, 'a) request list"
  connection_closed :: nat
  subscribers :: "('i, 'a) subscriber list"
  calls :: "'a call list"

definition wrap :: "'g \<Rightarrow> ('i, 'g, 'a) remote" where
  "wrap g = \<lparr>closed = False, generator = g, sent = [], connection_closed = 0,
             subscribers = [], calls = []\<rparr>"

text \<open>
  The id generator (\<open>options.generateId\<close>, or by default \<open>stringIdGenerator\<close>, which draws
  22 random characters) is a thunk with a state of its own; it is a function from its
  state to the id and the next state, and a parameter of the model.
  \<open>incrementingIdGenerator\<close> is \<open>id++\<close> on a JavaScript number, which stops growing at
  \<open>2 ^ 53\<close>.
\<close>

definition incrementingIdGenerator :: "int \<Rightarrow> int \<times> int" where
  "incrementingIdGenerator n = (n, if n < 2 ^ 53 then n + 1 else n)"

definition send :: "('i, 'a) request \<Rightarrow> ('i, 'g, 'a) remote \<Rightarrow> ('i, 'g, 'a) remote" where
  "send m r = r\<lparr>sent := sent r @ [m]\<rparr>"

text \<open>The \<open>get\<close> trap: a symbol throws, a string gives the closure over the command.\<close>

definition proxy_get :: "property_key \<Rightarrow> string + string" where
  "proxy_get key = (case key of Sym _ \<Rightarrow> Inl ''No symbol calls on a proxy.'' | Str c \<Rightarrow> Inr c)"

text \<open>Calling the closure builds the observable and the lazy promise; nothing runs yet.\<close>

definition invoke :: "string \<Rightarrow> 'a list \<Rightarrow> ('i, 'g, 'a) remote \<Rightarrow> ('i, 'g, 'a) remote" where
  "invoke c d r = r\<lparr>calls := calls r @ [\<lparr>command = c, data = d, promise = None\<rparr>]\<rparr>"

definition closed_error :: string where
  "closed_error = ''This remote is closed.''"

text \<open>
  The subscribe function of the observable. \<open>takeUntil\<close> subscribes its notifier first:
  when \<open>closed\<close> has completed, the notifier errors at once, the subscriber is closed with
  that error and the source is not subscribed. The \<open>Start\<close> message is sent in either case;
  the teardown is then handed to the subscriber, which runs it at once when it is already
  closed.
\<close>

definition subscribe ::
  "('g \<Rightarrow> 'i \<times> 'g) \<Rightarrow> consumer \<Rightarrow> string \<Rightarrow> 'a list \<Rightarrow> ('i, 'g, 'a) remote \<Rightarrow> ('i, 'g, 'a) remote" where
  "subscribe generateId k c d r =
     (let (i, g) = generateId (generator r);
          s = \<lparr>call_id = i, consumer = k, sub_closed = closed r,
               received = (if closed r then [Error closed_error] else [])\<rparr>;
          r1 = send (Start i c d) (r\<lparr>generator := g, subscribers := subscribers r @ [s]\<rparr>)
      in if sub_closed s then send (Stop i) r1 else r1)"

text \<open>
  An observer call on a subscriber. A closed subscriber drops it. An error or a completion
  closes the subscriber; a value closes it when the consumer is \<open>firstValueFrom\<close>. Closing
  runs the teardown, which sends the \<open>Stop\<close> message.
\<close>

definition deliver :: "'a observer_event \<Rightarrow> ('i, 'a) subscriber \<Rightarrow> ('i, 'a) subscriber" where
  "deliver ev s =
     s\<lparr>received := received s @ [ev],
       sub_closed := (case ev of Next _ \<Rightarrow> consumer s = FirstValueFrom | Error _ \<Rightarrow> True | Complete \<Rightarrow> True)\<rparr>"

definition notify ::
  "'a observer_event \<Rightarrow> ('i, 'a) subscriber \<Rightarrow> ('i, 'a) subscriber \<times> ('i, 'a) request list" where
  "notify ev s =
     (if sub_closed s then (s, [])
      else (deliver ev s, if sub_closed (deliver ev s) then [Stop (call_id s)] else []))"

text \<open>A response on \<open>connection.observe\<close>: the filter passes it to the subscribers of its id.\<close>

definition on_response ::
  "'i \<Rightarrow> 'a notification \<Rightarrow> ('i, 'a) subscriber \<Rightarrow> ('i, 'a) subscriber \<times> ('i, 'a) request list" where
  "on_response i n s = (if call_id s = i then notify (dematerialize n) s else (s, []))"

definition receive :: "'i \<Rightarrow> 'a notification \<Rightarrow> ('i, 'g, 'a) remote \<Rightarrow> ('i, 'g, 'a) remote" where
  "receive i n r =
     r\<lparr>subscribers := map (\<lambda>s. fst (on_response i n s)) (subscribers r),
       sent := sent r @ concat (map (\<lambda>s. snd (on_response i n s)) (subscribers r))\<rparr>"

text \<open>The caller cancels subscription \<open>k\<close>; a closed subscription ignores it.\<close>

definition unsubscribe :: "nat \<Rightarrow> ('i, 'g, 'a) remote \<Rightarrow> ('i, 'g, 'a) remote" where
  "unsubscribe k r =
     (if k < length (subscribers r) \<and> \<not> sub_closed (subscribers r ! k)
      then send (Stop (call_id (subscribers r ! k)))
             (r\<lparr>subscribers := (subscribers r)[k := (subscribers r ! k)\<lparr>sub_closed := True\<rparr>]\<rparr>)
      else r)"

text \<open>
  \<open>close\<close>: completing \<open>closed\<close> (once) makes every notifier error, so every open
  subscriber gets the closed error and runs its teardown; then the connection is closed.
\<close>

definition close :: "('i, 'g, 'a) remote \<Rightarrow> ('i, 'g, 'a) remote" where
  "close r =
     (let r1 = (if closed r then r
                else r\<lparr>closed := True,
                       subscribers := map (\<lambda>s. fst (notify (Error closed_error) s)) (subscribers r),
                       sent := sent r @ concat (map (\<lambda>s. snd (notify (Error closed_error) s)) (subscribers r))\<rparr>)
      in r1\<lparr>connection_closed := Suc (connection_closed r1)\<rparr>)"

text \<open>Subscribing to the value returned by invocation \<open>k\<close>.\<close>

definition subscribe_call ::
  "('g \<Rightarrow> 'i \<times> 'g) \<Rightarrow> nat \<Rightarrow> ('i, 'g, 'a) remote \<Rightarrow> ('i, 'g, 'a) remote" where
  "subscribe_call generateId k r =
     (if k < length (calls r)
      then subscribe generateId Observer (command (calls r ! k)) (data (calls r ! k)) r
      else r)"

text \<open>
  \<open>then\<close> on the value returned by invocation \<open>k\<close>: the first call starts the lazy promise,
  which subscribes through \<open>firstValueFrom\<close>; later calls reuse the promise.
\<close>

definition then_call ::
  "('g \<Rightarrow> 'i \<times> 'g) \<Rightarrow> nat \<Rightarrow> ('i, 'g, 'a) remote \<Rightarrow> ('i, 'g, 'a) remote" where
  "then_call generateId k r =
     (if k < length (calls r) \<and> promise (calls r ! k) = None
      then subscribe generateId FirstValueFrom (command (calls r ! k)) (data (calls r ! k))
             (r\<lparr>calls := (calls r)[k := (calls r ! k)\<lparr>promise := Some (length (subscribers r))\<rparr>]\<rparr>)
      else r)"

text \<open>What the caller and the connection can do to a remote, one event at a time.\<close>

datatype ('i, 'a) event =
    Get property_key
  | Invoke property_key "'a list"
  | Subscribe nat
  | Then nat
  | Unsubscribe nat
  | Receive 'i "'a notification"
  | Close

fun step ::
  "('g \<Rightarrow> 'i \<times> 'g) \<Rightarrow> ('i, 'g, 'a) remote \<Rightarrow> ('i, 'a) event \<Rightarrow> ('i, 'g, 'a) remote" where
  "step generateId r (Get key) = r"
| "step generateId r (Invoke key d) =
     (case proxy_get key of Inl _ \<Rightarrow> r | Inr c \<Rightarrow> invoke c d r)"
| "step generateId r (Subscribe k) = subscribe_call generateId k r"
| "step generateId r (Then k) = then_call generateId k r"
| "step generateId r (Unsubscribe k) = unsubscribe k r"
| "step generateId r (Receive i n) = receive i n r"
| "step generateId r Close = close r"

definition run ::
  "('g \<Rightarrow> 'i \<times> 'g) \<Rightarrow> ('i, 'g, 'a) remote \<Rightarrow> ('i, 'a) event list \<Rightarrow> ('i, 'g, 'a) remote" where
  "run generateId r evs = foldl (step generateId) r evs"

text \<open>
  Counting, for an id: the \<open>Stop\<close> messages sent so far, and the subscriptions of that id
  that have been torn down.
\<close>

definition stops :: "'i \<Rightarrow> ('i, 'g, 'a) remote \<Rightarrow> nat" where
  "stops i r = length (filter (\<lambda>m. m = Stop i) (sent r))"

definition torn_down :: "'i \<Rightarrow> ('i, 'g, 'a) remote \<Rightarrow> nat" where
  "torn_down i r = length (filter (\<lambda>s. call_id s = i \<and> sub_closed s) (subscribers r))"

text \<open>Once \<open>closed\<close> has completed, no subscriber is open.\<close>

definition all_closed :: "('i, 'g, 'a) remote \<Rightarrow> bool" where
  "all_closed r = (closed r \<longrightarrow> (\<forall>s \<in> set (subscribers r). sub_closed s))"

subsection \<open>The migrating exposer (src/migrating.ts, \<open>exposeMigrating\<close>)\<close>

text \<open>\<open>config.target\<close> is a value or a factory applied to the backend id.\<close>

datatype 't value_or_factory = Value 't | Factory "string \<Rightarrow> 't"

fun callOrGet :: "'t value_or_factory \<Rightarrow> string \<Rightarrow> 't" where
  "callOrGet (Value t) x = t"
| "callOrGet (Factory f) x = f x"

text \<open>
  Modelled from the spec: the coordinator (\<open>./coordinator\<close>) is not among the sources. The
  actions of \<open>coordinator.backEnd\<close> are \<open>"added"\<close> with an id and a channel, or a removal
  with the id (the \<open>else\<close> branch).
\<close>

datatype 'c backend_action = Added string 'c | Removed string

text \<open>
  Modelled from the spec: \<open>DirectReceiver\<close> (\<open>./direct\<close>) is not among the sources. It is the
  Target Exposer of the spec: built from a channel, a target and the logging toggle,
  \<open>subscribe()\<close> starts serving and returns the subscription that tears it down. The model
  keeps, for every receiver that was subscribed, what it was built from and whether its
  subscription is still live.
\<close>

record ('t, 'c) receiver =
  receiver_channel :: 'c
  receiver_target :: 't
  receiver_log :: "bool option"
  serving :: bool

record 't expose_config =
  target :: "'t value_or_factory"
  log :: "bool option"

text \<open>
  The state of one \<open>exposeMigrating\<close>: the \<open>clients\<close> map (a subscription is the index of
  its receiver), the receivers subscribed so far, and whether the subscription on
  \<open>coordinator.backEnd\<close>, which is what \<open>exposeMigrating\<close> returns, was cancelled.
\<close>

record ('t, 'c) exposer =
  clients :: "string \<rightharpoonup> nat"
  receivers :: "('t, 'c) receiver list"
  cancelled :: bool

definition exposeMigrating :: "('t, 'c) exposer" where
  "exposeMigrating = \<lparr>clients = Map.empty, receivers = [], cancelled = False\<rparr>"

text \<open>\<open>clients.get(action.id)?.unsubscribe()\<close>.\<close>

definition unsubscribe_client :: "nat option \<Rightarrow> ('t, 'c) receiver list \<Rightarrow> ('t, 'c) receiver list" where
  "unsubscribe_client h rs =
     (case h of None \<Rightarrow> rs
      | Some k \<Rightarrow> if k < length rs then rs[k := (rs ! k)\<lparr>serving := False\<rparr>] else rs)"

text \<open>The callback given to \<open>coordinator.backEnd.subscribe\<close>.\<close>

fun on_action :: "'t expose_config \<Rightarrow> ('t, 'c) exposer \<Rightarrow> 'c backend_action \<Rightarrow> ('t, 'c) exposer" where
  "on_action config x (Added i ch) =
     x\<lparr>receivers := receivers x @
          [\<lparr>receiver_channel = ch, receiver_target = callOrGet (target config) i,
            receiver_log = log config, serving = True\<rparr>],
       clients := (clients x)(i \<mapsto> length (receivers x))\<rparr>"
| "on_action config x (Removed i) =
     x\<lparr>receivers := unsubscribe_client (clients x i) (receivers x),
       clients := (clients x)(i := None)\<rparr>"

text \<open>
  What happens to an exposer: the coordinator emits an action, or the caller cancels the
  returned subscription. A cancelled subscription no longer calls the callback.
\<close>

datatype 'c expose_event = BackEnd "'c backend_action" | CancelExpose

fun expose_step :: "'t expose_config \<Rightarrow> ('t, 'c) exposer \<Rightarrow> 'c expose_event \<Rightarrow> ('t, 'c) exposer" where
  "expose_step config x (BackEnd a) = (if cancelled x then x else on_action config x a)"
| "expose_step config x CancelExpose = x\<lparr>cancelled := True\<rparr>"

definition expose_run ::
  "'t expose_config \<Rightarrow> ('t, 'c) exposer \<Rightarrow> 'c expose_event list \<Rightarrow> ('t, 'c) exposer" where
  "expose_run config x evs = foldl (expose_step config) x evs"

subsection \<open>The registry (src/migrating.ts, \<open>registry\<close>)\<close>

text \<open>
  An observable handed to the registry is given by the notifications it delivers
  synchronously when it is subscribed; what it delivers later arrives as an event. An
  action adds a key with its observable or deletes a key.
\<close>

type_synonym 'v observable = "'v observer_event list"

datatype ('k, 'v) registry_action = Add 'k "'v observable" | Delete 'k

record registry_options =
  allowIncorrectIds :: "bool option"

text \<open>\<open>!options.allowIncorrectIds\<close>: an option left out, or false, is strict.\<close>

definition strict :: "registry_options \<Rightarrow> bool" where
  "strict options = (allowIncorrectIds options \<noteq> Some True)"

text \<open>
  An inner subscription of \<open>mergeMap\<close>: the key of the action that made it, its \<open>closed\<close>
  flag, and whether the teardown returned by the subscribe function has been handed to
  it yet (while the source is being subscribed it has not).
\<close>

record 'k inner_subscription =
  inner_key :: 'k
  inner_closed :: bool
  has_teardown :: bool

text \<open>
  The state: the map \<open>observables\<close> (a subscription is the index of the inner
  subscription), the inner subscriptions made so far, the notifications the merged stream
  has delivered, and whether the merged stream is over (it errored or its consumer
  unsubscribed). The completion of the stream of actions is not an event of the model.
\<close>

record ('k, 'v) registry_state =
  observables :: "'k \<rightharpoonup> nat"
  inner :: "'k inner_subscription list"
  emitted :: "('k \<times> 'v) observer_event list"
  over :: bool

definition registry :: "('k, 'v) registry_state" where
  "registry = \<lparr>observables = Map.empty, inner = [], emitted = [], over = False\<rparr>"

text \<open>
  Unsubscribing inner subscription \<open>h\<close>: nothing when it is closed; otherwise it is closed
  and its teardown, when it has one, deletes its key from the map.
\<close>

definition unsubscribe_inner :: "nat \<Rightarrow> ('k, 'v) registry_state \<Rightarrow> ('k, 'v) registry_state" where
  "unsubscribe_inner h st =
     (if h < length (inner st) \<and> \<not> inner_closed (inner st ! h)
      then st\<lparr>inner := (inner st)[h := (inner st ! h)\<lparr>inner_closed := True\<rparr>],
              observables := (if has_teardown (inner st ! h)
                              then (observables st)(inner_key (inner st ! h) := None)
                              else observables st)\<rparr>
      else st)"

text \<open>
  The merged stream ends: its subscriber is closed, which unsubscribes every inner
  subscription, in the order they were made.
\<close>

definition finish :: "('k, 'v) registry_state \<Rightarrow> ('k, 'v) registry_state" where
  "finish st = foldl (\<lambda>s h. unsubscribe_inner h s) (st\<lparr>over := True\<rparr>) [0..<length (inner st)]"

text \<open>
  A notification from the source of inner subscription \<open>h\<close>. A closed subscription drops
  it. A value is tagged with the key and merged; an error is the error of the merged
  stream, which ends; a completion closes the inner subscription.
\<close>

definition from_source ::
  "nat \<Rightarrow> ('k, 'v) registry_state \<Rightarrow> 'v observer_event \<Rightarrow> ('k, 'v) registry_state" where
  "from_source h st ev =
     (if h < length (inner st) \<and> \<not> inner_closed (inner st ! h)
      then (case ev of
              Next v \<Rightarrow> st\<lparr>emitted := emitted st @ [Next (inner_key (inner st ! h), v)]\<rparr>
            | Error e \<Rightarrow> finish (st\<lparr>emitted := emitted st @ [Error e]\<rparr>)
            | Complete \<Rightarrow> unsubscribe_inner h st)
      else st)"

text \<open>
  The \<open>add\<close> branch: the inner observable is subscribed, which subscribes the source (its
  synchronous notifications arrive now), stores the subscription under the key and
  returns the teardown; a subscriber that is closed by then runs the teardown at once.
\<close>

definition on_add :: "'k \<Rightarrow> 'v observable \<Rightarrow> ('k, 'v) registry_state \<Rightarrow> ('k, 'v) registry_state" where
  "on_add k source st =
     (let h = length (inner st);
          st1 = st\<lparr>inner := inner st @ [\<lparr>inner_key = k, inner_closed = False, has_teardown = False\<rparr>]\<rparr>;
          st2 = foldl (from_source h) st1 source;
          st3 = st2\<lparr>observables := (observables st2)(k \<mapsto> h)\<rparr>
      in if inner_closed (inner st3 ! h)
         then st3\<lparr>observables := (observables st3)(k := None)\<rparr>
         else st3\<lparr>inner := (inner st3)[h := (inner st3 ! h)\<lparr>has_teardown := True\<rparr>]\<rparr>)"

definition not_found :: string where
  "not_found = ''Tried to remove a non existent observable from a registry.''"

text \<open>The \<open>delete\<close> branch: \<open>throwError\<close> ends the merged stream, \<open>EMPTY\<close> adds nothing.\<close>

definition on_delete ::
  "registry_options \<Rightarrow> 'k \<Rightarrow> ('k, 'v) registry_state \<Rightarrow> ('k, 'v) registry_state" where
  "on_delete options k st =
     (let observable = observables st k in
      if strict options \<and> observable = None
      then finish (st\<lparr>emitted := emitted st @ [Error not_found]\<rparr>)
      else (case observable of None \<Rightarrow> st | Some h \<Rightarrow> unsubscribe_inner h st))"

text \<open>
  What happens to a registry: an action arrives, the source of an inner subscription
  delivers a notification, or the consumer of the merged stream unsubscribes. Once the
  merged stream is over nothing reaches it.
\<close>

datatype ('k, 'v) registry_event =
    Action "('k, 'v) registry_action"
  | Source nat "'v observer_event"
  | CancelRegistry

fun registry_step ::
  "registry_options \<Rightarrow> ('k, 'v) registry_state \<Rightarrow> ('k, 'v) registry_event \<Rightarrow> ('k, 'v) registry_state" where
  "registry_step options st (Action (Add k source)) = (if over st then st else on_add k source st)"
| "registry_step options st (Action (Delete k)) = (if over st then st else on_delete options k st)"
| "registry_step options st (Source h ev) = (if over st then st else from_source h st ev)"
| "registry_step options st CancelRegistry = (if over st then st else finish st)"

definition registry_run ::
  "registry_options \<Rightarrow> ('k, 'v) registry_state \<Rightarrow> ('k, 'v) registry_event list \<Rightarrow> ('k, 'v) registry_state" where
  "registry_run options st evs = foldl (registry_step options) st evs"

text \<open>
  Every entry of the map is an open inner subscription made for that key whose teardown
  is in place, and when the merged stream is over every inner subscription is closed.
\<close>

definition entries_ok :: "('k, 'v) registry_state \<Rightarrow> bool" where
  "entries_ok st =
     (\<forall>k h. observables st k = Some h \<longrightarrow>
        h < length (inner st) \<and> inner_key (inner st ! h) = k
        \<and> \<not> inner_closed (inner st ! h) \<and> has_teardown (inner st ! h))"

definition registry_inv :: "('k, 'v) registry_state \<Rightarrow> bool" where
  "registry_inv st = (entries_ok st \<and> (over st \<longrightarrow> (\<forall>s \<in> set (inner st). inner_closed s)))"

subsection \<open>The web lock (src/migrating.ts, \<open>acquireWebLock\<close> and \<open>observeWebLock\<close>)\<close>

text \<open>
  \<open>navigator.locks\<close> and the \<open>AbortController\<close> belong to the platform. The model follows
  one request through the platform: it is queued by \<open>navigator.locks.request\<close>; the
  platform then either grants it (it calls the callback, and the lock is held until the
  promise the callback returned is resolved) or rejects it; aborting the signal of a
  queued request drops it from the queue and rejects it with an \<open>AbortError\<close>, and does
  nothing to a request that is no longer queued. Each event below is one task of the
  event loop together with the promise reactions it sets off.
\<close>

datatype request_state = NotRequested | Queued | Held | Released | Aborted | Failed string

datatype promise_state = Pending | Resolved | Rejected string

text \<open>
  One subscription of \<open>observeWebLock\<close>: the request, whether the subscriber is closed,
  and what it has delivered.
\<close>

record web_lock =
  lock_name :: string
  request :: request_state
  lock_closed :: bool
  delivered :: "unit observer_event list"

text \<open>The observable is lazy: nothing is requested before it is subscribed.\<close>

definition observeWebLock :: "string \<Rightarrow> web_lock" where
  "observeWebLock name = \<lparr>lock_name = name, request = NotRequested, lock_closed = False, delivered = []\<rparr>"

text \<open>
  The promise of \<open>acquireWebLock\<close>: the callback resolves it with the release function
  (\<open>defer.resolve\<close>); a rejection of the request rejects it.
\<close>

fun acquireWebLock :: "request_state \<Rightarrow> promise_state" where
  "acquireWebLock NotRequested = Pending"
| "acquireWebLock Queued = Pending"
| "acquireWebLock Held = Resolved"
| "acquireWebLock Released = Resolved"
| "acquireWebLock Aborted = Rejected ''AbortError''"
| "acquireWebLock (Failed e) = Rejected e"

text \<open>
  \<open>controller.abort()\<close>. The rejection it causes reaches
  \<open>subscriber.error\<close> only after the teardown, on a closed subscriber, which drops it.
\<close>

definition abort :: "web_lock \<Rightarrow> web_lock" where
  "abort l = (if request l = Queued then l\<lparr>request := Aborted\<rparr> else l)"

text \<open>\<open>lock.then(release => release())\<close>: releasing resolves the promise that holds the lock.\<close>

definition release :: "web_lock \<Rightarrow> web_lock" where
  "release l =
     (if acquireWebLock (request l) = Resolved \<and> request l = Held
      then l\<lparr>request := Released\<rparr> else l)"

definition teardown :: "web_lock \<Rightarrow> web_lock" where
  "teardown l = release (abort l)"

text \<open>\<open>subscriber.next()\<close> and \<open>subscriber.error(error)\<close>; an error closes the subscriber.\<close>

definition subscriber_next :: "web_lock \<Rightarrow> web_lock" where
  "subscriber_next l = (if lock_closed l then l else l\<lparr>delivered := delivered l @ [Next ()]\<rparr>)"

definition subscriber_error :: "string \<Rightarrow> web_lock \<Rightarrow> web_lock" where
  "subscriber_error e l =
     (if lock_closed l then l
      else teardown (l\<lparr>delivered := delivered l @ [Error e], lock_closed := True\<rparr>))"

definition lock_unsubscribe :: "web_lock \<Rightarrow> web_lock" where
  "lock_unsubscribe l = (if lock_closed l then l else teardown (l\<lparr>lock_closed := True\<rparr>))"

text \<open>
  The events: the observable is subscribed; the platform grants the queued request or
  rejects it with an error; the caller unsubscribes.
\<close>

datatype lock_event = LockSubscribe | Grant | Reject string | LockUnsubscribe

fun lock_step :: "web_lock \<Rightarrow> lock_event \<Rightarrow> web_lock" where
  "lock_step l LockSubscribe = (if request l = NotRequested then l\<lparr>request := Queued\<rparr> else l)"
| "lock_step l Grant =
     (if request l = Queued then subscriber_next (l\<lparr>request := Held\<rparr>) else l)"
| "lock_step l (Reject e) =
     (if request l = Queued then subscriber_error e (l\<lparr>request := Failed e\<rparr>) else l)"
| "lock_step l LockUnsubscribe = (if request l = NotRequested then l else lock_unsubscribe l)"

definition lock_run :: "web_lock \<Rightarrow> lock_event list \<Rightarrow> web_lock" where
  "lock_run l evs = foldl lock_step l evs"

text \<open>What a subscription can have delivered in each state of its request.\<close>

definition lock_inv :: "web_lock \<Rightarrow> bool" where
  "lock_inv l =
     (case request l of
        NotRequested \<Rightarrow> \<not> lock_closed l \<and> delivered l = []
      | Queued \<Rightarrow> \<not> lock_closed l \<and> delivered l = []
      | Held \<Rightarrow> \<not> lock_closed l \<and> delivered l = [Next ()]
      | Released \<Rightarrow> lock_closed l \<and> delivered l = [Next ()]
      | Aborted \<Rightarrow> lock_closed l \<and> delivered l = []
      | Failed e \<Rightarrow> lock_closed l \<and> delivered l = [Error e])"

section \<open>Properties\<close>

subsection \<open>The Remote proxy: traces and invariants\<close>

lemma run_Nil: "run g r [] = r"
  by (simp add: run_def)

lemma run_snoc: "run g r (evs @ [e]) = step g (run g r evs) e"
  by (simp add: run_def)

lemma step_all_closed: "all_closed r \<Longrightarrow> all_closed (step g r e)"
  by (cases e)
    (auto simp: all_closed_def invoke_def subscribe_call_def then_call_def subscribe_def send_def
      Let_def unsubscribe_def receive_def close_def on_response_def notify_def deliver_def
      split: sum.splits prod.splits if_splits dest: set_update_subset_insert[THEN subsetD])

lemma run_all_closed: "all_closed (run g (wrap g0) evs)"
proof (induction evs rule: rev_induct)
  case Nil
  show ?case by (simp add: run_Nil all_closed_def wrap_def)
next
  case (snoc e evs)
  then show ?case by (simp add: run_snoc step_all_closed)
qed

lemma closed_step: "closed r \<Longrightarrow> closed (step g r e)"
  by (cases e)
    (auto simp: invoke_def subscribe_call_def then_call_def subscribe_def send_def Let_def
      unsubscribe_def receive_def close_def split: sum.splits prod.splits)

lemma connection_closed_step: "0 < connection_closed r \<Longrightarrow> 0 < connection_closed (step g r e)"
  by (cases e)
    (auto simp: invoke_def subscribe_call_def then_call_def subscribe_def send_def Let_def
      unsubscribe_def receive_def close_def split: sum.splits prod.splits)

lemma closed_after_Close:
  "Close \<in> set evs \<Longrightarrow> closed (run g r evs) \<and> 0 < connection_closed (run g r evs)"
proof (induction evs rule: rev_induct)
  case Nil
  then show ?case by simp
next
  case (snoc e evs)
  show ?case
  proof (cases "e = Close")
    case True
    then show ?thesis by (simp add: run_snoc close_def Let_def)
  next
    case False
    with snoc show ?thesis by (simp add: run_snoc closed_step connection_closed_step)
  qed
qed

text \<open>
  A step that sends \<open>Stop\<close> messages sends one for each subscriber it closes: the two
  counts move together over a list of subscribers.
\<close>

lemma count_map:
  assumes "\<And>s. length (filter P (snd (f s))) + (if Q s then 1 else 0)
                = (if Q (fst (f s)) then 1 else (0::nat))"
  shows "length (filter P (concat (map (\<lambda>s. snd (f s)) ss))) + length (filter Q ss)
         = length (filter Q (map (\<lambda>s. fst (f s)) ss))"
proof (induction ss)
  case Nil
  show ?case by simp
next
  case (Cons s ss)
  from assms[of s] Cons show ?case by (simp split: if_splits)
qed

lemma notify_stop:
  "length (filter (\<lambda>m. m = Stop i) (snd (notify ev s)))
     + (if call_id s = i \<and> sub_closed s then 1 else 0)
   = (if call_id (fst (notify ev s)) = i \<and> sub_closed (fst (notify ev s)) then 1 else (0::nat))"
  by (simp add: notify_def deliver_def)

lemma on_response_stop:
  "length (filter (\<lambda>m. m = Stop i) (snd (on_response j n s)))
     + (if call_id s = i \<and> sub_closed s then 1 else 0)
   = (if call_id (fst (on_response j n s)) = i \<and> sub_closed (fst (on_response j n s))
      then 1 else (0::nat))"
  by (simp add: on_response_def notify_def deliver_def)

lemma stops_receive:
  "stops i r = torn_down i r \<Longrightarrow> stops i (receive j n r) = torn_down i (receive j n r)"
  using count_map[of "\<lambda>m. m = Stop i" "on_response j n" "\<lambda>s. call_id s = i \<and> sub_closed s"
      "subscribers r", OF on_response_stop]
  by (simp add: stops_def torn_down_def receive_def)

lemma stops_close:
  "stops i r = torn_down i r \<Longrightarrow> stops i (close r) = torn_down i (close r)"
  using count_map[of "\<lambda>m. m = Stop i" "notify (Error closed_error)"
      "\<lambda>s. call_id s = i \<and> sub_closed s" "subscribers r", OF notify_stop]
  by (simp add: stops_def torn_down_def close_def Let_def)

lemma stops_subscribe:
  "stops i r = torn_down i r \<Longrightarrow>
   stops i (subscribe g k c d r) = torn_down i (subscribe g k c d r)"
  by (simp add: stops_def torn_down_def subscribe_def send_def Let_def split: prod.splits)

lemma filter_update_closed:
  "k < length ss \<Longrightarrow> \<not> sub_closed (ss ! k) \<Longrightarrow>
   length (filter (\<lambda>s. call_id s = i \<and> sub_closed s) (ss[k := (ss ! k)\<lparr>sub_closed := True\<rparr>]))
   = length (filter (\<lambda>s. call_id s = i \<and> sub_closed s) ss) + (if call_id (ss ! k) = i then 1 else 0)"
proof (induction ss arbitrary: k)
  case Nil
  then show ?case by simp
next
  case (Cons s ss)
  then show ?case by (cases k) auto
qed

lemma stops_unsubscribe:
  "stops i r = torn_down i r \<Longrightarrow> stops i (unsubscribe k r) = torn_down i (unsubscribe k r)"
  by (auto simp: stops_def torn_down_def unsubscribe_def send_def filter_update_closed)

lemma stops_step:
  assumes inv: "stops i r = torn_down i r"
  shows "stops i (step g r e) = torn_down i (step g r e)"
proof (cases e)
  case (Invoke key d)
  with inv show ?thesis
    by (simp add: stops_def torn_down_def invoke_def split: sum.splits)
next
  case (Subscribe k)
  with inv stops_subscribe[of i r g] show ?thesis
    by (simp add: subscribe_call_def)
next
  case (Then k)
  have "stops i (r\<lparr>calls := cs\<rparr>) = torn_down i (r\<lparr>calls := cs\<rparr>)" for cs
    using inv by (simp add: stops_def torn_down_def)
  then have "stops i (subscribe g FirstValueFrom c d (r\<lparr>calls := cs\<rparr>))
             = torn_down i (subscribe g FirstValueFrom c d (r\<lparr>calls := cs\<rparr>))" for cs c d
    by (rule stops_subscribe)
  with Then inv show ?thesis by (simp add: then_call_def)
qed (simp_all add: inv stops_receive stops_close stops_unsubscribe)

lemma stops_run: "stops i (run g (wrap g0) evs) = torn_down i (run g (wrap g0) evs)"
proof (induction evs rule: rev_induct)
  case Nil
  show ?case by (simp add: run_Nil wrap_def stops_def torn_down_def)
next
  case (snoc e evs)
  then show ?case by (simp add: run_snoc stops_step)
qed

lemma torn_down_terminal:
  assumes "\<And>v. n \<noteq> N v"
  shows "torn_down i (receive i n r) = length (filter (\<lambda>s. call_id s = i) (subscribers r))"
proof -
  have "filter (\<lambda>s. call_id s = i \<and> sub_closed s) (map (\<lambda>s. fst (on_response i n s)) ss)
        = map (\<lambda>s. fst (on_response i n s)) (filter (\<lambda>s. call_id s = i) ss)" for ss
  proof (induction ss)
    case Nil
    show ?case by simp
  next
    case (Cons s ss)
    with assms show ?case by (cases n) (auto simp: on_response_def notify_def deliver_def)
  qed
  then show ?thesis by (simp add: torn_down_def receive_def)
qed

lemma quiet_step:
  "calls r = [] \<Longrightarrow> subscribers r = [] \<Longrightarrow> \<forall>key d. e \<noteq> Invoke key d \<Longrightarrow>
   calls (step g r e) = [] \<and> subscribers (step g r e) = [] \<and> sent (step g r e) = sent r"
  by (cases e)
    (auto simp: subscribe_call_def then_call_def unsubscribe_def receive_def close_def Let_def)

lemma quiet_run:
  "\<forall>key d. Invoke key d \<notin> set evs \<Longrightarrow>
   calls (run g (wrap g0) evs) = [] \<and> subscribers (run g (wrap g0) evs) = []
   \<and> sent (run g (wrap g0) evs) = []"
proof (induction evs rule: rev_induct)
  case Nil
  show ?case by (simp add: run_Nil wrap_def)
next
  case (snoc e evs)
  then have "\<forall>key d. e \<noteq> Invoke key d" by auto
  with snoc quiet_step[of "run g (wrap g0) evs" e g] show ?case by (auto simp: run_snoc)
qed

lemmas wrap_eval =
  run_def wrap_def incrementingIdGenerator_def proxy_get_def invoke_def subscribe_call_def
  then_call_def subscribe_def send_def receive_def on_response_def notify_def deliver_def
  unsubscribe_def close_def closed_error_def Let_def stops_def torn_down_def

subsection \<open>The Remote proxy: the claims\<close>

text \<open>
  C1, as stated: a \<open>Stop\<close> message is sent if and only if the caller cancels before a
  terminal notification, and none is sent after the terminal notification. The code sends
  \<open>Stop\<close> from the teardown of the subscription, and the completion of the call runs that
  teardown: one call is subscribed and its completion arrives; the caller never cancels,
  and the \<open>Stop\<close> message follows the terminal notification.
\<close>

theorem stop_after_terminal_counterexample:
  "sent (run incrementingIdGenerator (wrap 0) [Invoke (Str ''f'') [], Subscribe 0])
     = [Start 0 ''f'' ([] :: int list)]
   \<and> sent (run incrementingIdGenerator (wrap 0) [Invoke (Str ''f'') [], Subscribe 0, Receive 0 C])
     = [Start 0 ''f'' ([] :: int list), Stop 0]"
  by (simp add: wrap_eval)

text \<open>
  C1, amended: one \<open>Stop\<close> message is sent for every subscription that is torn down,
  whatever tore it down. On every trace the \<open>Stop\<close> messages of an id are as many as the
  torn-down subscriptions of that id; after a terminal notification (completion or error)
  for an id every subscription of that id has had its \<open>Stop\<close>; cancelling an open
  subscription sends its \<open>Stop\<close>, and cancelling a torn-down one changes nothing.
\<close>

theorem stop_on_every_teardown:
  assumes "r = run generateId (wrap g0) evs"
  shows "stops i r = torn_down i r
       \<and> stops i (receive i C r) = length (filter (\<lambda>s. call_id s = i) (subscribers r))
       \<and> stops i (receive i (E e) r) = length (filter (\<lambda>s. call_id s = i) (subscribers r))
       \<and> (k < length (subscribers r) \<and> \<not> sub_closed (subscribers r ! k) \<longrightarrow>
            sent (unsubscribe k r) = sent r @ [Stop (call_id (subscribers r ! k))])
       \<and> (k < length (subscribers r) \<and> sub_closed (subscribers r ! k) \<longrightarrow> unsubscribe k r = r)"
proof -
  have inv: "stops i r = torn_down i r"
    using assms by (simp add: stops_run)
  have "stops i (receive i n r) = length (filter (\<lambda>s. call_id s = i) (subscribers r))"
    if "\<And>v. n \<noteq> N v" for n
    using stops_receive[OF inv, of i n] torn_down_terminal[OF that, of i r] by simp
  then have "stops i (receive i C r) = length (filter (\<lambda>s. call_id s = i) (subscribers r))"
    and "stops i (receive i (E e) r) = length (filter (\<lambda>s. call_id s = i) (subscribers r))"
    by simp_all
  with inv show ?thesis by (simp add: unsubscribe_def send_def)
qed

theorem stop_on_every_teardown_witness:
  "stops 0 (run incrementingIdGenerator (wrap 0) [Invoke (Str ''f'') ([] :: int list), Subscribe 0]) = 0
   \<and> stops 0 (receive 0 C
        (run incrementingIdGenerator (wrap 0) [Invoke (Str ''f'') ([] :: int list), Subscribe 0])) = 1
   \<and> sent (unsubscribe 0
        (run incrementingIdGenerator (wrap 0) [Invoke (Str ''f'') ([] :: int list), Subscribe 0]))
     = [Start 0 ''f'' [], Stop 0]"
  using stop_on_every_teardown[OF refl, of 0 incrementingIdGenerator 0
      "[Invoke (Str ''f'') ([] :: int list), Subscribe 0]" "''e''" 0]
  by (simp add: wrap_eval)

text \<open>
  C2: when \<open>close\<close> is called while calls are outstanding, every outstanding call ends with
  the closed error: each subscription that is open in a reachable state is closed by
  \<open>close\<close>, and the last thing its consumer is given is the error
  \<open>This remote is closed.\<close>, not a completion and not nothing.
\<close>

theorem close_fails_outstanding:
  assumes "r = run generateId (wrap g0) evs"
    and "k < length (subscribers r)" and "\<not> sub_closed (subscribers r ! k)"
  shows "sub_closed (subscribers (close r) ! k)
         \<and> received (subscribers (close r) ! k)
           = received (subscribers r ! k) @ [Error ''This remote is closed.'']"
proof -
  have "all_closed r"
    using assms(1) by (simp add: run_all_closed)
  with assms(2,3) have "\<not> closed r"
    by (auto simp: all_closed_def)
  with assms(2,3) show ?thesis
    by (simp add: close_def Let_def notify_def deliver_def closed_error_def)
qed

theorem close_fails_outstanding_witness:
  "sub_closed (subscribers (close (run incrementingIdGenerator (wrap 0)
       [Invoke (Str ''f'') ([] :: int list), Subscribe 0, Receive 0 (N 5)])) ! 0)
   \<and> received (subscribers (close (run incrementingIdGenerator (wrap 0)
       [Invoke (Str ''f'') ([] :: int list), Subscribe 0, Receive 0 (N 5)])) ! 0)
     = [Next 5, Error ''This remote is closed.'']"
  using close_fails_outstanding[OF refl, of 0 incrementingIdGenerator 0
      "[Invoke (Str ''f'') ([] :: int list), Subscribe 0, Receive 0 (N 5)]"]
  by (simp add: wrap_eval)

text \<open>
  C7: a symbol key is rejected with an error, and looking a property up sends nothing. The
  \<open>get\<close> trap throws on a symbol; a lookup leaves the remote as it is, and so does an
  invocation through a symbol key; and on a trace without an invocation no message is
  ever sent, whatever else is done to the remote.
\<close>

theorem lookup_sends_nothing:
  "proxy_get (Sym s) = Inl ''No symbol calls on a proxy.''
   \<and> step generateId (r :: ('i, 'g, 'a) remote) (Get key) = r
   \<and> step generateId r (Invoke (Sym s) d) = r
   \<and> ((\<forall>k d. Invoke k d \<notin> set evs) \<longrightarrow>
        sent (run generateId (wrap g0 :: ('i, 'g, 'a) remote) evs) = [])"
  using quiet_run[of evs generateId g0] by (simp add: proxy_get_def)

theorem lookup_sends_nothing_witness:
  "proxy_get (Sym 3) = Inl ''No symbol calls on a proxy.''
   \<and> sent (run incrementingIdGenerator (wrap 0 :: (int, int, int) remote)
        [Get (Str ''f''), Get (Sym 3), Subscribe 0, Then 0, Close]) = []"
  using lookup_sends_nothing[of 3 incrementingIdGenerator "wrap 0 :: (int, int, int) remote"
      "Str ''f''" "[]" "[Get (Str ''f''), Get (Sym 3), Subscribe 0, Then 0, Close]" 0]
  by simp

text \<open>
  The subscriptions of one returned value, for any id generator and any state of the
  remote: what goes out on the connection, and who receives a response.
\<close>

lemma subscriptions_of_a_call:
  assumes "generateId (generator r) = (i1, g1)" and "generateId g1 = (i2, g2)"
    and "generateId g2 = (i3, g3)"
    and "n = length (calls r)" and "m = length (subscribers r)"
  shows "sent (run generateId r [Invoke (Str c) d]) = sent r
   \<and> sent (run generateId r [Invoke (Str c) d, Subscribe n])
       = sent r @ Start i1 c d # (if closed r then [Stop i1] else [])
   \<and> sent (run generateId r [Invoke (Str c) d, Subscribe n, Then n])
       = sent r @ Start i1 c d # (if closed r then [Stop i1] else [])
                @ Start i2 c d # (if closed r then [Stop i2] else [])
   \<and> sent (run generateId r [Invoke (Str c) d, Subscribe n, Then n, Then n])
       = sent (run generateId r [Invoke (Str c) d, Subscribe n, Then n])
   \<and> sent (run generateId r [Invoke (Str c) d, Subscribe n, Then n, Then n, Subscribe n])
       = sent r @ Start i1 c d # (if closed r then [Stop i1] else [])
                @ Start i2 c d # (if closed r then [Stop i2] else [])
                @ Start i3 c d # (if closed r then [Stop i3] else [])
   \<and> (\<not> closed r \<longrightarrow>
        map received (drop m (subscribers (run generateId r
          [Invoke (Str c) d, Subscribe n, Then n, Receive i2 (N v)])))
        = (if i1 = i2 then [[Next v], [Next v]] else [[], [Next v]]))"
  using assms
  by (simp add: run_def proxy_get_def invoke_def subscribe_call_def then_call_def subscribe_def
      send_def nth_append receive_def on_response_def notify_def deliver_def)

text \<open>
  With \<open>incrementingIdGenerator\<close>, while its counter is below \<open>2 ^ 53\<close>, the stream
  subscription and the promise get the counter and its successor.
\<close>

lemma subscriptions_incrementing:
  fixes q :: "(int, int, 'b) remote"
  assumes "generator q < 2 ^ 53"
  shows "sent (run incrementingIdGenerator q
            [Invoke (Str c) d, Subscribe (length (calls q)), Then (length (calls q))])
         = sent q @ Start (generator q) c d # (if closed q then [Stop (generator q)] else [])
                  @ Start (generator q + 1) c d # (if closed q then [Stop (generator q + 1)] else [])
       \<and> generator q \<noteq> generator q + 1
       \<and> (\<not> closed q \<longrightarrow>
            map received (drop (length (subscribers q)) (subscribers (run incrementingIdGenerator q
              [Invoke (Str c) d, Subscribe (length (calls q)), Then (length (calls q)),
               Receive (generator q + 1) (N v)])))
            = [[], [Next v]])"
proof -
  have 1: "incrementingIdGenerator (generator q) = (generator q, generator q + 1)"
    using assms by (simp add: incrementingIdGenerator_def)
  obtain g2 where 2: "incrementingIdGenerator (generator q + 1) = (generator q + 1, g2)"
    by (simp add: incrementingIdGenerator_def)
  obtain i3 g3 where 3: "incrementingIdGenerator g2 = (i3, g3)"
    by (cases "incrementingIdGenerator g2")
  from subscriptions_of_a_call[OF 1 2 3 refl refl, of c d v] show ?thesis
    by simp
qed

text \<open>
  C9, as stated: an invocation sends nothing, each subscription of the returned value
  (the first \<open>then\<close> included) generates its own id and sends its own \<open>Start\<close>, so that
  awaiting and subscribing the same value are two independent calls with distinct
  correlation ids. The id is whatever \<open>generateId\<close> returns, and \<open>generateId\<close> is an option
  of \<open>wrap\<close>: with the generator that always returns \<open>0\<close> (here \<open>Pair 0\<close>, on a state that
  holds nothing) the stream subscription and the promise send the same id, and a
  response for that id reaches both.
\<close>

theorem repeated_id_counterexample:
  "sent (run (Pair (0::int)) (wrap ()) [Invoke (Str ''f'') ([] :: int list), Subscribe 0, Then 0])
     = [Start 0 ''f'' [], Start 0 ''f'' []]
   \<and> map received (subscribers (run (Pair (0::int)) (wrap ())
        [Invoke (Str ''f'') ([] :: int list), Subscribe 0, Then 0, Receive 0 (N 3)]))
     = [[Next 3], [Next 3]]"
  by (simp add: wrap_eval)

text \<open>
  C9, amended: an invocation sends nothing; the \<open>Start\<close> message is sent when the returned
  value is subscribed and when it is first awaited, a second \<open>then\<close> sends nothing more,
  and every further subscription sends a \<open>Start\<close> of its own (on a closed remote each is
  followed by its \<open>Stop\<close>). Each subscription calls the generator once: the ids are the
  successive results of the generator. The two calls are distinct and independent
  exactly when these results differ: a response for the awaited call then reaches the
  promise alone, and reaches both when the ids are equal. With
  \<open>incrementingIdGenerator\<close>, while its counter is below \<open>2 ^ 53\<close>, the two ids are the
  counter and its successor, so they are distinct and the calls independent.
\<close>

theorem subscription_ids_from_generator:
  fixes r :: "('i, 'g, 'a) remote" and q :: "(int, int, 'b) remote"
  assumes "generateId (generator r) = (i1, g1)" and "generateId g1 = (i2, g2)"
    and "generateId g2 = (i3, g3)"
    and "n = length (calls r)" and "m = length (subscribers r)"
  shows "sent (run generateId r [Invoke (Str c) d]) = sent r
   \<and> sent (run generateId r [Invoke (Str c) d, Subscribe n])
       = sent r @ Start i1 c d # (if closed r then [Stop i1] else [])
   \<and> sent (run generateId r [Invoke (Str c) d, Subscribe n, Then n])
       = sent r @ Start i1 c d # (if closed r then [Stop i1] else [])
                @ Start i2 c d # (if closed r then [Stop i2] else [])
   \<and> sent (run generateId r [Invoke (Str c) d, Subscribe n, Then n, Then n])
       = sent (run generateId r [Invoke (Str c) d, Subscribe n, Then n])
   \<and> sent (run generateId r [Invoke (Str c) d, Subscribe n, Then n, Then n, Subscribe n])
       = sent r @ Start i1 c d # (if closed r then [Stop i1] else [])
                @ Start i2 c d # (if closed r then [Stop i2] else [])
                @ Start i3 c d # (if closed r then [Stop i3] else [])
   \<and> (\<not> closed r \<longrightarrow>
        map received (drop m (subscribers (run generateId r
          [Invoke (Str c) d, Subscribe n, Then n, Receive i2 (N v)])))
        = (if i1 = i2 then [[Next v], [Next v]] else [[], [Next v]]))
   \<and> (generator q < 2 ^ 53 \<longrightarrow>
        sent (run incrementingIdGenerator q
            [Invoke (Str c') d', Subscribe (length (calls q)), Then (length (calls q))])
         = sent q @ Start (generator q) c' d' # (if closed q then [Stop (generator q)] else [])
                  @ Start (generator q + 1) c' d' # (if closed q then [Stop (generator q + 1)] else [])
       \<and> generator q \<noteq> generator q + 1
       \<and> (\<not> closed q \<longrightarrow>
            map received (drop (length (subscribers q)) (subscribers (run incrementingIdGenerator q
              [Invoke (Str c') d', Subscribe (length (calls q)), Then (length (calls q)),
               Receive (generator q + 1) (N v')])))
            = [[], [Next v']]))"
proof -
  note general = subscriptions_of_a_call[OF assms, of c d v]
  have "generator q < 2 ^ 53 \<longrightarrow>
        sent (run incrementingIdGenerator q
            [Invoke (Str c') d', Subscribe (length (calls q)), Then (length (calls q))])
         = sent q @ Start (generator q) c' d' # (if closed q then [Stop (generator q)] else [])
                  @ Start (generator q + 1) c' d' # (if closed q then [Stop (generator q + 1)] else [])
       \<and> generator q \<noteq> generator q + 1
       \<and> (\<not> closed q \<longrightarrow>
            map received (drop (length (subscribers q)) (subscribers (run incrementingIdGenerator q
              [Invoke (Str c') d', Subscribe (length (calls q)), Then (length (calls q)),
               Receive (generator q + 1) (N v')])))
            = [[], [Next v']])"
    by (rule impI) (rule subscriptions_incrementing)
  with general show ?thesis
    by (elim conjE, intro conjI) assumption+
qed

theorem subscription_ids_from_generator_witness:
  "sent (run incrementingIdGenerator (wrap 0) [Invoke (Str ''f'') [7::int]]) = []
   \<and> sent (run incrementingIdGenerator (wrap 0)
        [Invoke (Str ''f'') [7::int], Subscribe 0, Then 0, Then 0, Subscribe 0])
     = [Start 0 ''f'' [7], Start 1 ''f'' [7], Start 2 ''f'' [7]]
   \<and> map received (subscribers (run incrementingIdGenerator (wrap 0)
        [Invoke (Str ''f'') [7::int], Subscribe 0, Then 0, Receive 1 (N 3)])) = [[], [Next 3]]
   \<and> sent (run incrementingIdGenerator (close (wrap 0))
        [Invoke (Str ''f'') [7::int], Subscribe 0, Then 0])
     = [Start 0 ''f'' [7], Stop 0, Start 1 ''f'' [7], Stop 1]"
  using subscription_ids_from_generator[where generateId = incrementingIdGenerator
      and r = "wrap (0::int)" and q = "wrap (0::int) :: (int, int, int) remote"
      and ?i1.0 = 0 and ?g1.0 = 1 and ?i2.0 = 1 and ?g2.0 = 2 and ?i3.0 = 2 and ?g3.0 = 3
      and n = 0 and m = 0 and c = "''f''" and d = "[7::int]" and v = 3
      and c' = "''f''" and d' = "[7::int]" and v' = 3]
    subscription_ids_from_generator[where generateId = incrementingIdGenerator
      and r = "close (wrap (0::int))" and q = "close (wrap (0::int)) :: (int, int, int) remote"
      and ?i1.0 = 0 and ?g1.0 = 1 and ?i2.0 = 1 and ?g2.0 = 2 and ?i3.0 = 2 and ?g3.0 = 3
      and n = 0 and m = 0 and c = "''f''" and d = "[7::int]" and v = 3
      and c' = "''f''" and d' = "[7::int]" and v' = 3]
  by (simp add: wrap_def close_def incrementingIdGenerator_def)

text \<open>
  C10: subscribing to a call, or awaiting it, after \<open>close\<close> fails at once with the error
  \<open>This remote is closed.\<close>, and the \<open>Start\<close> message and the \<open>Stop\<close> message of the
  teardown are sent all the same, on the connection that \<open>close\<close> has closed. This holds
  for either consumer of the subscription.
\<close>

theorem subscribe_after_close:
  assumes "Close \<in> set evs" and "r = run generateId (wrap g0) evs"
    and "generateId (generator r) = (i, g)"
  shows "subscribers (subscribe generateId k c d r)
           = subscribers r @ [\<lparr>call_id = i, consumer = k, sub_closed = True,
                                received = [Error ''This remote is closed.'']\<rparr>]
         \<and> sent (subscribe generateId k c d r) = sent r @ [Start i c d, Stop i]
         \<and> 0 < connection_closed r"
  using assms closed_after_Close[of evs generateId "wrap g0"]
  by (simp add: subscribe_def send_def closed_error_def)

theorem subscribe_after_close_witness:
  "sent (run incrementingIdGenerator (wrap 0) [Invoke (Str ''f'') [7::int], Close, Subscribe 0])
     = [Start 0 ''f'' [7], Stop 0]
   \<and> map received (subscribers (run incrementingIdGenerator (wrap 0)
        [Invoke (Str ''f'') [7::int], Close, Then 0])) = [[Error ''This remote is closed.'']]"
  using subscribe_after_close[of "[Invoke (Str ''f'') [7::int], Close]" _ incrementingIdGenerator 0 0 1
      Observer "''f''" "[7]", OF _ refl]
    subscribe_after_close[of "[Invoke (Str ''f'') [7::int], Close]" _ incrementingIdGenerator 0 0 1
      FirstValueFrom "''f''" "[7]", OF _ refl]
  by (simp add: wrap_eval)

subsection \<open>The migrating exposer: the claim\<close>

lemma expose_run_append:
  "expose_run config x (evs @ evs') = expose_run config (expose_run config x evs) evs'"
  by (simp add: expose_run_def)

lemma cancelled_step: "cancelled x \<Longrightarrow> expose_step config x e = x"
  by (cases e) simp_all

lemma cancelled_run: "cancelled x \<Longrightarrow> expose_run config x evs = x"
  unfolding expose_run_def by (induction evs) (simp_all add: cancelled_step)

lemmas expose_eval = expose_run_def exposeMigrating_def unsubscribe_client_def

text \<open>
  C3, as stated: cancelling the subscription returned by \<open>exposeMigrating\<close> tears down every
  exposer that is still in the \<open>clients\<close> map. The returned subscription is the one on
  \<open>coordinator.backEnd\<close> and nothing is attached to it: a backend is added, the
  subscription is cancelled, and the receiver of that backend is still serving, its
  entry still in the map.
\<close>

theorem cancel_tears_down_counterexample:
  "serving (receivers (expose_run \<lparr>target = Value (0::nat), log = None\<rparr> exposeMigrating
       [BackEnd (Added ''w1'' (0::nat)), CancelExpose]) ! 0)
   \<and> clients (expose_run \<lparr>target = Value (0::nat), log = None\<rparr> exposeMigrating
       [BackEnd (Added ''w1'' (0::nat)), CancelExpose]) ''w1'' = Some 0"
  by (simp add: expose_eval)

text \<open>
  C3, amended: cancelling the returned subscription stops the handling of backend
  actions and tears no exposer down. Whatever backend actions arrive after the
  cancellation, the receivers and the \<open>clients\<close> map stay as they were when it was
  cancelled: every exposer that was active then stays subscribed.
\<close>

theorem cancel_keeps_exposers:
  "receivers (expose_run config x (evs @ CancelExpose # later)) = receivers (expose_run config x evs)
   \<and> clients (expose_run config x (evs @ CancelExpose # later)) = clients (expose_run config x evs)
   \<and> cancelled (expose_run config x (evs @ CancelExpose # later))"
proof -
  let ?y = "(expose_run config x evs)\<lparr>cancelled := True\<rparr>"
  have "expose_run config x (evs @ CancelExpose # later) = expose_run config ?y later"
    by (simp add: expose_run_def)
  also have "\<dots> = ?y"
    by (rule cancelled_run) simp
  finally show ?thesis by simp
qed

theorem cancel_keeps_exposers_witness:
  "map serving (receivers (expose_run \<lparr>target = Factory length, log = None\<rparr> exposeMigrating
       [BackEnd (Added ''w1'' (0::nat)), BackEnd (Added ''w2'' 1), BackEnd (Removed ''w1''),
        CancelExpose, BackEnd (Removed ''w2'')])) = [False, True]"
  using cancel_keeps_exposers[of "\<lparr>target = Factory length, log = None\<rparr>" exposeMigrating
      "[BackEnd (Added ''w1'' (0::nat)), BackEnd (Added ''w2'' 1), BackEnd (Removed ''w1'')]"
      "[BackEnd (Removed ''w2'')]"]
  by (simp add: expose_eval)

subsection \<open>The registry: invariants\<close>

lemma unsubscribe_inner_frame:
  "length (inner (unsubscribe_inner h st)) = length (inner st)"
  "map inner_key (inner (unsubscribe_inner h st)) = map inner_key (inner st)"
  "map has_teardown (inner (unsubscribe_inner h st)) = map has_teardown (inner st)"
  "emitted (unsubscribe_inner h st) = emitted st"
  "over (unsubscribe_inner h st) = over st"
  by (simp_all add: unsubscribe_inner_def map_update list_update_same_conv)

lemma unsubscribe_inner_closed:
  "i < length (inner st) \<Longrightarrow>
   inner_closed (inner (unsubscribe_inner h st) ! i) = (inner_closed (inner st ! i) \<or> i = h)"
  by (auto simp: unsubscribe_inner_def nth_list_update)

lemma unsubscribe_inner_entries: "entries_ok st \<Longrightarrow> entries_ok (unsubscribe_inner h st)"
  by (auto simp: entries_ok_def unsubscribe_inner_def nth_list_update split: if_splits)

lemma unsubscribe_all_frame:
  "length (inner (foldl (\<lambda>s h. unsubscribe_inner h s) st hs)) = length (inner st)"
  "map inner_key (inner (foldl (\<lambda>s h. unsubscribe_inner h s) st hs)) = map inner_key (inner st)"
  "map has_teardown (inner (foldl (\<lambda>s h. unsubscribe_inner h s) st hs)) = map has_teardown (inner st)"
  "emitted (foldl (\<lambda>s h. unsubscribe_inner h s) st hs) = emitted st"
  "over (foldl (\<lambda>s h. unsubscribe_inner h s) st hs) = over st"
  by (induction hs arbitrary: st; simp add: unsubscribe_inner_frame)+

lemma unsubscribe_all_closed:
  "i < length (inner st) \<Longrightarrow>
   inner_closed (inner (foldl (\<lambda>s h. unsubscribe_inner h s) st hs) ! i)
   = (inner_closed (inner st ! i) \<or> i \<in> set hs)"
  by (induction hs arbitrary: st) (auto simp: unsubscribe_inner_frame unsubscribe_inner_closed)

lemma unsubscribe_all_entries:
  "entries_ok st \<Longrightarrow> entries_ok (foldl (\<lambda>s h. unsubscribe_inner h s) st hs)"
  by (induction hs arbitrary: st) (auto simp: unsubscribe_inner_entries)

lemma finish_frame:
  "length (inner (finish st)) = length (inner st)"
  "map inner_key (inner (finish st)) = map inner_key (inner st)"
  "map has_teardown (inner (finish st)) = map has_teardown (inner st)"
  "emitted (finish st) = emitted st"
  "over (finish st)"
  by (simp_all add: finish_def unsubscribe_all_frame)

lemma finish_closed: "i < length (inner st) \<Longrightarrow> inner_closed (inner (finish st) ! i)"
  by (simp add: finish_def unsubscribe_all_closed)

lemma finish_entries: "entries_ok st \<Longrightarrow> entries_ok (finish st)"
proof -
  assume "entries_ok st"
  then have "entries_ok (st\<lparr>over := True\<rparr>)" by (simp add: entries_ok_def)
  then show ?thesis unfolding finish_def by (simp add: unsubscribe_all_entries)
qed

lemma finish_inv: "entries_ok st \<Longrightarrow> registry_inv (finish st)"
  using finish_entries[of st] finish_closed[of _ st] finish_frame(1)[of st]
  by (auto simp: registry_inv_def in_set_conv_nth)


lemma from_source_frame:
  "length (inner (from_source h st ev)) = length (inner st)"
  "map inner_key (inner (from_source h st ev)) = map inner_key (inner st)"
  "map has_teardown (inner (from_source h st ev)) = map has_teardown (inner st)"
  by (simp_all add: from_source_def finish_frame unsubscribe_inner_frame split: observer_event.splits)

lemma inv_emitted: "registry_inv st \<Longrightarrow> registry_inv (st\<lparr>emitted := es\<rparr>)"
  by (simp add: registry_inv_def entries_ok_def)

lemma unsubscribe_inner_inv: "registry_inv st \<Longrightarrow> registry_inv (unsubscribe_inner h st)"
proof -
  assume a: "registry_inv st"
  then have "entries_ok (unsubscribe_inner h st)"
    by (simp add: registry_inv_def unsubscribe_inner_entries)
  moreover have "inner_closed s" if "over st" and "s \<in> set (inner (unsubscribe_inner h st))" for s
  proof -
    from that(2) obtain i where i: "i < length (inner st)" "s = inner (unsubscribe_inner h st) ! i"
      by (auto simp: in_set_conv_nth unsubscribe_inner_frame)
    with a that(1) have "inner_closed (inner st ! i)" by (simp add: registry_inv_def)
    with i show ?thesis by (simp add: unsubscribe_inner_closed)
  qed
  ultimately show ?thesis by (simp add: registry_inv_def unsubscribe_inner_frame)
qed

lemma from_source_inv:
  assumes "registry_inv st"
  shows "registry_inv (from_source h st ev)"
proof (cases ev)
  case (Next v)
  with assms inv_emitted[OF assms] show ?thesis by (simp add: from_source_def)
next
  case (Error e)
  from assms have "entries_ok (st\<lparr>emitted := emitted st @ [Error e]\<rparr>)"
    by (simp add: registry_inv_def entries_ok_def)
  then have "registry_inv (finish (st\<lparr>emitted := emitted st @ [Error e]\<rparr>))"
    by (rule finish_inv)
  with assms Error show ?thesis by (simp add: from_source_def)
next
  case Complete
  with assms unsubscribe_inner_inv[OF assms] show ?thesis by (simp add: from_source_def)
qed

lemma from_source_all_frame:
  "length (inner (foldl (from_source h) st evs)) = length (inner st)"
  "map inner_key (inner (foldl (from_source h) st evs)) = map inner_key (inner st)"
  "map has_teardown (inner (foldl (from_source h) st evs)) = map has_teardown (inner st)"
  by (induction evs arbitrary: st; simp add: from_source_frame)+

lemma from_source_all_inv: "registry_inv st \<Longrightarrow> registry_inv (foldl (from_source h) st evs)"
  by (induction evs arbitrary: st) (simp_all add: from_source_inv)

lemma nth_of_map: "map f xs = map f ys \<Longrightarrow> i < length xs \<Longrightarrow> f (xs ! i) = f (ys ! i)"
  by (metis length_map nth_map)

lemma on_add_inv:
  assumes "registry_inv st" and "\<not> over st"
  shows "registry_inv (on_add k source st)"
proof -
  define h where "h = length (inner st)"
  define st1 where "st1 = st\<lparr>inner := inner st @ [\<lparr>inner_key = k, inner_closed = False, has_teardown = False\<rparr>]\<rparr>"
  define st2 where "st2 = foldl (from_source h) st1 source"
  have inv1: "registry_inv st1"
    using assms unfolding st1_def registry_inv_def entries_ok_def
    by (auto simp: nth_append less_Suc_eq)
  have inv2: "registry_inv st2" unfolding st2_def using inv1 by (rule from_source_all_inv)
  have len2: "length (inner st2) = Suc h"
    by (simp add: st2_def from_source_all_frame st1_def h_def)
  have "map inner_key (inner st2) = map inner_key (inner st1)" "map has_teardown (inner st2) = map has_teardown (inner st1)"
    by (simp_all add: st2_def from_source_all_frame)
  from nth_of_map[OF this(1), of h] nth_of_map[OF this(2), of h] len2
  have key2: "inner_key (inner st2 ! h) = k" and td2: "\<not> has_teardown (inner st2 ! h)"
    by (simp_all add: st1_def h_def)
  have not_h: "h' \<noteq> h" if "observables st2 k' = Some h'" for k' h'
    using inv2 that td2 by (auto simp: registry_inv_def entries_ok_def)
  have res: "on_add k source st =
      (if inner_closed (inner st2 ! h) then st2\<lparr>observables := (observables st2)(k := None)\<rparr>
       else st2\<lparr>observables := (observables st2)(k \<mapsto> h), inner := (inner st2)[h := (inner st2 ! h)\<lparr>has_teardown := True\<rparr>]\<rparr>)"
    by (simp add: on_add_def Let_def h_def st1_def st2_def)
  show ?thesis
  proof (cases "inner_closed (inner st2 ! h)")
    case True
    with inv2 show ?thesis unfolding res by (auto simp: registry_inv_def entries_ok_def)
  next
    case False
    have "entries_ok (on_add k source st)"
      using False inv2 not_h key2 len2 unfolding res 
      by (auto simp: registry_inv_def entries_ok_def nth_list_update)
    moreover have "\<not> over st2" using False inv2 len2 by (auto simp: registry_inv_def)
    ultimately show ?thesis using False unfolding res by (simp add: registry_inv_def)
  qed
qed


lemma on_delete_inv:
  assumes "registry_inv st"
  shows "registry_inv (on_delete options k st)"
proof -
  from assms have "entries_ok (st\<lparr>emitted := emitted st @ [Error not_found]\<rparr>)"
    by (simp add: registry_inv_def entries_ok_def)
  then have "registry_inv (finish (st\<lparr>emitted := emitted st @ [Error not_found]\<rparr>))"
    by (rule finish_inv)
  with assms unsubscribe_inner_inv[OF assms] show ?thesis
    by (simp add: on_delete_def Let_def split: option.splits)
qed

lemma registry_step_inv:
  assumes "registry_inv st"
  shows "registry_inv (registry_step options st e)"
proof (cases e)
  case (Action a)
  with assms show ?thesis by (cases a) (simp_all add: on_add_inv on_delete_inv)
next
  case (Source h ev)
  with assms show ?thesis by (simp add: from_source_inv)
next
  case CancelRegistry
  with assms finish_inv[of st] show ?thesis by (simp add: registry_inv_def)
qed

lemma registry_run_Nil: "registry_run options st [] = st"
  by (simp add: registry_run_def)

lemma registry_run_snoc:
  "registry_run options st (evs @ [e]) = registry_step options (registry_run options st evs) e"
  by (simp add: registry_run_def)

lemma registry_run_append:
  "registry_run options st (evs @ evs') = registry_run options (registry_run options st evs) evs'"
  by (simp add: registry_run_def)

lemma registry_run_inv: "registry_inv (registry_run options registry evs)"
proof (induction evs rule: rev_induct)
  case Nil
  show ?case by (simp add: registry_run_Nil registry_def registry_inv_def entries_ok_def)
next
  case (snoc e evs)
  then show ?case by (simp add: registry_run_snoc registry_step_inv)
qed

text \<open>The keys of the inner subscriptions are keys that were added.\<close>

lemma map_update_same:
  "(\<And>x. f (g x) = f x) \<Longrightarrow> map f (xs[h := g (xs ! h)]) = map f xs"
proof (induction xs arbitrary: h)
  case Nil
  show ?case by simp
next
  case (Cons x xs)
  then show ?case by (cases h) simp_all
qed

lemma on_add_keys: "map inner_key (inner (on_add k source st)) = map inner_key (inner st) @ [k]"
  by (simp add: on_add_def Let_def from_source_all_frame
      map_update_same[of inner_key "\<lambda>s. s\<lparr>has_teardown := True\<rparr>"])

lemma on_delete_keys: "map inner_key (inner (on_delete options k st)) = map inner_key (inner st)"
  by (simp add: on_delete_def Let_def finish_frame unsubscribe_inner_frame split: option.splits)

lemma registry_step_keys:
  "set (map inner_key (inner (registry_step options st e)))
   \<subseteq> set (map inner_key (inner st)) \<union> {k. \<exists>source. e = Action (Add k source)}"
proof (cases e)
  case (Action a)
  then show ?thesis by (cases a) (auto simp: on_add_keys on_delete_keys simp del: set_map)
next
  case (Source h ev)
  then show ?thesis by (simp add: from_source_frame del: set_map)
next
  case CancelRegistry
  then show ?thesis by (simp add: finish_frame del: set_map)
qed

lemma registry_run_keys:
  "set (map inner_key (inner (registry_run options registry evs)))
   \<subseteq> {k. \<exists>source. Action (Add k source) \<in> set evs}"
proof (induction evs rule: rev_induct)
  case Nil
  show ?case by (simp add: registry_run_Nil registry_def)
next
  case (snoc e evs)
  with registry_step_keys[of options "registry_run options registry evs" e]
  show ?case by (auto simp: registry_run_snoc simp del: set_map)
qed

lemma never_added_absent:
  assumes "\<forall>source. Action (Add k source) \<notin> set evs"
  shows "observables (registry_run options registry evs) k = None"
proof (rule ccontr)
  let ?st = "registry_run options registry evs"
  assume "observables ?st k \<noteq> None"
  then obtain h where h: "observables ?st k = Some h" by auto
  with registry_run_inv[of options evs] have "h < length (inner ?st)" "inner_key (inner ?st ! h) = k"
    by (auto simp: registry_inv_def entries_ok_def)
  then have "k \<in> set (map inner_key (inner ?st))"
    by (metis length_map nth_map nth_mem)
  with registry_run_keys[of options evs] assms show False by auto
qed

lemma from_source_values:
  "h < length (inner st) \<Longrightarrow> \<not> inner_closed (inner st ! h) \<Longrightarrow>
   foldl (from_source h) st (map Next vs)
   = st\<lparr>emitted := emitted st @ map (\<lambda>v. Next (inner_key (inner st ! h), v)) vs\<rparr>"
  by (induction vs arbitrary: st) (simp_all add: from_source_def)

lemma source_values:
  "h < length (inner st) \<Longrightarrow> \<not> inner_closed (inner st ! h) \<Longrightarrow> \<not> over st \<Longrightarrow>
   registry_run options st (map (\<lambda>v. Source h (Next v)) vs)
   = st\<lparr>emitted := emitted st @ map (\<lambda>v. Next (inner_key (inner st ! h), v)) vs\<rparr>"
  unfolding registry_run_def
  by (induction vs arbitrary: st) (simp_all add: from_source_def)

lemma source_dropped:
  "over st \<or> (h < length (inner st) \<longrightarrow> inner_closed (inner st ! h)) \<Longrightarrow>
   registry_run options st (map (Source h) evs) = st"
  unfolding registry_run_def
  by (induction evs arbitrary: st) (auto simp: from_source_def)

lemma add_live:
  "on_add k (map Next vs) registry
   = \<lparr>observables = [k \<mapsto> 0],
      inner = [\<lparr>inner_key = k, inner_closed = False, has_teardown = True\<rparr>],
      emitted = map (\<lambda>v. Next (k, v)) vs, over = False\<rparr>"
  by (simp add: on_add_def Let_def from_source_values registry_def)

lemma add_completed:
  "on_add k (map Next vs @ [Complete]) registry
   = \<lparr>observables = Map.empty,
      inner = [\<lparr>inner_key = k, inner_closed = True, has_teardown = False\<rparr>],
      emitted = map (\<lambda>v. Next (k, v)) vs, over = False\<rparr>"
  by (simp add: on_add_def Let_def from_source_values registry_def from_source_def unsubscribe_inner_def)

lemma delete_absent_then_dropped:
  assumes "observables st k = None" and "\<not> over st"
    and "h < length (inner st) \<longrightarrow> inner_closed (inner st ! h)"
  shows "emitted (registry_run options st ([Action (Delete k)] @ map (Source h) later))
         = emitted st @ (if strict options then [Error not_found] else [])"
proof (cases "strict options")
  case True
  let ?d = "finish (st\<lparr>emitted := emitted st @ [Error not_found]\<rparr>)"
  have 1: "registry_run options st [Action (Delete k)] = ?d"
    using assms True by (simp add: registry_run_def on_delete_def)
  have 2: "registry_run options ?d (map (Source h) later) = ?d"
    by (rule source_dropped) (simp add: finish_frame)
  have "registry_run options st ([Action (Delete k)] @ map (Source h) later) = ?d"
    by (simp only: registry_run_append 1 2)
  with True show ?thesis by (simp only: finish_frame) simp
next
  case False
  have 1: "registry_run options st [Action (Delete k)] = st"
    using assms False by (simp add: registry_run_def on_delete_def)
  have 2: "registry_run options st (map (Source h) later) = st"
    by (rule source_dropped) (simp add: assms)
  have "registry_run options st ([Action (Delete k)] @ map (Source h) later) = st"
    by (simp only: registry_run_append 1 2)
  with False show ?thesis by (simp only:) simp
qed

lemma add_then_delete_completed:
  "emitted (registry_run options registry
      ([Action (Add k (map Next vs @ [Complete]))] @ [Action (Delete k)] @ map (Source 0) later))
   = map (\<lambda>v. Next (k, v)) vs @ (if strict options then [Error not_found] else [])"
proof -
  let ?a = "on_add k (map Next vs @ [Complete]) registry"
  have 1: "registry_run options registry [Action (Add k (map Next vs @ [Complete]))] = ?a"
    by (simp add: registry_run_def registry_def)
  have "emitted (registry_run options ?a ([Action (Delete k)] @ map (Source 0) later))
         = emitted ?a @ (if strict options then [Error not_found] else [])"
    by (rule delete_absent_then_dropped) (simp_all add: add_completed)
  then show ?thesis
    by (simp only: registry_run_append 1) (simp add: add_completed)
qed

lemma add_then_delete_live:
  "emitted (registry_run options registry
      ([Action (Add k (map Next vs1))] @ map (\<lambda>v. Source 0 (Next v)) vs2
        @ [Action (Delete k)] @ map (Source 0) later))
   = map (\<lambda>v. Next (k, v)) (vs1 @ vs2)"
proof -
  define a :: "('a, 'b) registry_state" where "a = on_add k (map Next vs1) registry"
  define b where "b = a\<lparr>emitted := emitted a @ map (\<lambda>v. Next (k, v)) vs2\<rparr>"
  define c :: "('a, 'b) registry_state" where "c = \<lparr>observables = Map.empty,
      inner = [\<lparr>inner_key = k, inner_closed = True, has_teardown = True\<rparr>],
      emitted = map (\<lambda>v. Next (k, v)) (vs1 @ vs2), over = False\<rparr>"
  have 1: "registry_run options registry [Action (Add k (map Next vs1))] = a"
    by (simp add: registry_run_def registry_def a_def)
  have 2: "registry_run options a (map (\<lambda>v. Source 0 (Next v)) vs2) = b"
    unfolding b_def by (subst source_values) (simp_all add: a_def add_live)
  have 3: "registry_run options b [Action (Delete k)] = c"
    by (simp add: registry_run_def a_def b_def c_def add_live on_delete_def unsubscribe_inner_def)
  have 4: "registry_run options c (map (Source 0) later) = c"
    by (rule source_dropped) (simp add: c_def)
  have "registry_run options registry
      ([Action (Add k (map Next vs1))] @ map (\<lambda>v. Source 0 (Next v)) vs2
        @ [Action (Delete k)] @ map (Source 0) later) = c"
    by (simp only: registry_run_append 1 2 3 4)
  then show ?thesis by (simp add: c_def)
qed

lemma add_then_delete_completed_later:
  "emitted (registry_run options registry
      ([Action (Add k (map Next vs1))] @ map (\<lambda>v. Source 0 (Next v)) vs2 @ [Source 0 Complete]
        @ [Action (Delete k)] @ map (Source 0) later))
   = map (\<lambda>v. Next (k, v)) (vs1 @ vs2) @ (if strict options then [Error not_found] else [])"
proof -
  define a :: "('a, 'b) registry_state" where "a = on_add k (map Next vs1) registry"
  define b where "b = a\<lparr>emitted := emitted a @ map (\<lambda>v. Next (k, v)) vs2\<rparr>"
  define c :: "('a, 'b) registry_state" where "c = \<lparr>observables = Map.empty,
      inner = [\<lparr>inner_key = k, inner_closed = True, has_teardown = True\<rparr>],
      emitted = map (\<lambda>v. Next (k, v)) (vs1 @ vs2), over = False\<rparr>"
  have 1: "registry_run options registry [Action (Add k (map Next vs1))] = a"
    by (simp add: registry_run_def registry_def a_def)
  have 2: "registry_run options a (map (\<lambda>v. Source 0 (Next v)) vs2) = b"
    unfolding b_def by (subst source_values) (simp_all add: a_def add_live)
  have 3: "registry_run options b [Source 0 Complete] = c"
    by (simp add: registry_run_def a_def b_def c_def add_live from_source_def unsubscribe_inner_def)
  have 4: "emitted (registry_run options c ([Action (Delete k)] @ map (Source 0) later))
           = emitted c @ (if strict options then [Error not_found] else [])"
    by (rule delete_absent_then_dropped) (simp_all add: c_def)
  have "registry_run options registry
      ([Action (Add k (map Next vs1))] @ map (\<lambda>v. Source 0 (Next v)) vs2 @ [Source 0 Complete]
        @ [Action (Delete k)] @ map (Source 0) later)
      = registry_run options c ([Action (Delete k)] @ map (Source 0) later)"
    by (simp only: registry_run_append 1 2 3)
  with 4 show ?thesis by (simp only:) (simp add: c_def)
qed

lemmas registry_eval =
  registry_run_def registry_def on_add_def on_delete_def from_source_def unsubscribe_inner_def
  finish_def strict_def not_found_def Let_def

subsection \<open>The registry: the claims\<close>

text \<open>
  C4: a \<open>Delete\<close> of a key that is in the map cancels the subscription stored under the key
  and removes the entry. In every reachable state, the subscription the map holds for
  the key is one made for that key and is open; the \<open>Delete\<close> closes it, the key is gone
  from the map afterwards, and the merged stream is given nothing.
\<close>

theorem delete_present:
  assumes "st = registry_run options registry evs" and "observables st k = Some h"
  shows "inner_key (inner st ! h) = k \<and> \<not> inner_closed (inner st ! h)
       \<and> inner_closed (inner (registry_step options st (Action (Delete k))) ! h)
       \<and> observables (registry_step options st (Action (Delete k))) k = None
       \<and> emitted (registry_step options st (Action (Delete k))) = emitted st"
proof -
  have inv: "registry_inv st"
    using assms(1) by (simp add: registry_run_inv)
  with assms(2) have h: "h < length (inner st)" "inner_key (inner st ! h) = k"
    "\<not> inner_closed (inner st ! h)" "has_teardown (inner st ! h)"
    by (auto simp: registry_inv_def entries_ok_def)
  with inv have "\<not> over st"
    by (auto simp: registry_inv_def)
  with h assms(2) show ?thesis
    by (simp add: on_delete_def unsubscribe_inner_def)
qed

theorem delete_present_witness:
  "inner_closed (inner (registry_run \<lparr>allowIncorrectIds = None\<rparr> registry
       [Action (Add ''k1'' [Next (1::int)]), Action (Delete ''k1'')]) ! 0)
   \<and> observables (registry_run \<lparr>allowIncorrectIds = None\<rparr> registry
       [Action (Add ''k1'' [Next (1::int)]), Action (Delete ''k1'')]) ''k1'' = None
   \<and> emitted (registry_run \<lparr>allowIncorrectIds = None\<rparr> registry
       [Action (Add ''k1'' [Next (1::int)]), Action (Delete ''k1'')]) = [Next (''k1'', 1)]"
  using delete_present[OF refl, of "\<lparr>allowIncorrectIds = None\<rparr>"
      "[Action (Add ''k1'' [Next (1::int)])]" "''k1''" 0]
  by (simp add: registry_eval)

text \<open>
  C5: a \<open>Delete\<close> of a key that was never added, while the merged stream is live: in strict
  mode (\<open>allowIncorrectIds\<close> not set, or false) the merged stream is given the error and
  ends; in lenient mode nothing is emitted, no error is signalled and the registry is
  as it was.
\<close>

theorem delete_never_added:
  assumes "st = registry_run options registry evs"
    and "\<forall>source. Action (Add k source) \<notin> set evs" and "\<not> over st"
  shows "(allowIncorrectIds options \<noteq> Some True \<longrightarrow>
            emitted (registry_step options st (Action (Delete k)))
              = emitted st @ [Error ''Tried to remove a non existent observable from a registry.'']
            \<and> over (registry_step options st (Action (Delete k))))
       \<and> (allowIncorrectIds options = Some True \<longrightarrow>
            registry_step options st (Action (Delete k)) = st)"
  using assms never_added_absent[of k evs options]
  by (simp add: on_delete_def strict_def finish_frame not_found_def)

theorem delete_never_added_witness:
  "emitted (registry_run \<lparr>allowIncorrectIds = None\<rparr> registry
       [Action (Add ''k1'' [Next (1::int)]), Action (Delete ''k2'')])
     = [Next (''k1'', 1), Error ''Tried to remove a non existent observable from a registry.'']
   \<and> emitted (registry_run \<lparr>allowIncorrectIds = Some True\<rparr> registry
       [Action (Add ''k1'' [Next (1::int)]), Action (Delete ''k2'')])
     = [Next (''k1'', 1)]"
  using delete_never_added[OF refl, of "''k2''" "[Action (Add ''k1'' [Next (1::int)])]"
      "\<lparr>allowIncorrectIds = None\<rparr>"]
    delete_never_added[OF refl, of "''k2''" "[Action (Add ''k1'' [Next (1::int)])]"
      "\<lparr>allowIncorrectIds = Some True\<rparr>"]
  by (simp add: registry_eval)

text \<open>
  C6: a key is added with a source, the source emits its values (some when it is
  subscribed, the others later), and the key is deleted: the merged stream has delivered
  exactly those values, each tagged with the key, in the order of the source, whatever
  the source does after the deletion; for the values \<open>1, 2, 3\<close> these are the pairs
  \<open>(k, 1), (k, 2), (k, 3)\<close>. When the source has completed before the deletion (at once,
  as \<open>of\<close> does, or later), the values are the same; the key has left the map by then, so
  the deletion is the deletion of an absent key, an error in strict mode.
\<close>

theorem add_then_delete:
  "emitted (registry_run options registry
      ([Action (Add k (map Next vs1))] @ map (\<lambda>v. Source 0 (Next v)) vs2
        @ [Action (Delete k)] @ map (Source 0) later))
   = map (\<lambda>v. Next (k, v)) (vs1 @ vs2)
   \<and> emitted (registry_run options registry
      ([Action (Add k (map Next vs @ [Complete]))] @ [Action (Delete k)] @ map (Source 0) later))
   = map (\<lambda>v. Next (k, v)) vs @ (if strict options then [Error not_found] else [])
   \<and> emitted (registry_run options registry
      ([Action (Add k (map Next vs1))] @ map (\<lambda>v. Source 0 (Next v)) vs2 @ [Source 0 Complete]
        @ [Action (Delete k)] @ map (Source 0) later))
   = map (\<lambda>v. Next (k, v)) (vs1 @ vs2) @ (if strict options then [Error not_found] else [])"
  by (simp only: add_then_delete_live add_then_delete_completed add_then_delete_completed_later)

theorem add_then_delete_witness:
  "emitted (registry_run \<lparr>allowIncorrectIds = None\<rparr> registry
      [Action (Add ''k1'' []), Source 0 (Next (1::int)), Source 0 (Next 2), Source 0 (Next 3),
       Action (Delete ''k1''), Source 0 (Next 4), Source 0 Complete])
   = [Next (''k1'', 1), Next (''k1'', 2), Next (''k1'', 3)]
   \<and> emitted (registry_run \<lparr>allowIncorrectIds = Some True\<rparr> registry
      [Action (Add ''k1'' [Next (1::int), Next 2, Next 3, Complete]), Action (Delete ''k1'')])
   = [Next (''k1'', 1), Next (''k1'', 2), Next (''k1'', 3)]"
  using add_then_delete[of "\<lparr>allowIncorrectIds = None\<rparr>" "''k1''" "[]" "[1::int, 2, 3]"
      "[Next 4, Complete]" "[]"]
    add_then_delete[of "\<lparr>allowIncorrectIds = Some True\<rparr>" "''k1''" "[]" "[]"
      "[]" "[1::int, 2, 3]"]
  by (simp add: strict_def)

subsection \<open>The web lock: the claim\<close>

lemma lock_run_Nil: "lock_run l [] = l"
  by (simp add: lock_run_def)

lemma lock_run_snoc: "lock_run l (evs @ [e]) = lock_step (lock_run l evs) e"
  by (simp add: lock_run_def)

lemmas lock_defs =
  abort_def release_def teardown_def subscriber_next_def subscriber_error_def lock_unsubscribe_def

lemma lock_step_inv: "lock_inv l \<Longrightarrow> lock_inv (lock_step l e)"
  by (cases e; cases "request l") (auto simp: lock_inv_def lock_defs)

lemma lock_run_inv: "lock_inv l \<Longrightarrow> lock_inv (lock_run l evs)"
  by (induction evs rule: rev_induct) (simp_all add: lock_run_Nil lock_run_snoc lock_step_inv)

lemma aborted_stays: "request l = Aborted \<Longrightarrow> lock_closed l \<Longrightarrow> lock_run l evs = l"
  unfolding lock_run_def
proof (induction evs)
  case Nil
  show ?case by simp
next
  case (Cons e evs)
  then have "lock_step l e = l" by (cases e) (simp_all add: lock_defs)
  with Cons show ?case by simp
qed

lemma granted_keeps:
  "request l = Held \<or> request l = Released \<Longrightarrow> delivered (lock_run l evs) = delivered l"
  unfolding lock_run_def
proof (induction evs arbitrary: l)
  case Nil
  show ?case by simp
next
  case (Cons e evs)
  then have "(request (lock_step l e) = Held \<or> request (lock_step l e) = Released)
             \<and> delivered (lock_step l e) = delivered l"
    by (cases e) (auto simp: lock_defs)
  with Cons.IH[of "lock_step l e"] show ?case by simp
qed

text \<open>
  C8: the stream of \<open>observeWebLock\<close> emits exactly once, when the lock is acquired;
  cancelling before the acquisition aborts the request, which is then never granted;
  cancelling after the acquisition releases the lock; a failure to acquire is an error of
  the stream. After any events that follow the subscription: while the request is queued
  nothing has been emitted, a grant makes the lock held and the stream has then emitted
  one value for good, a cancellation leaves the request aborted for good with nothing
  emitted, and a rejection is delivered as that error; while the lock is held exactly
  one value has been emitted and a cancellation releases the lock.
\<close>

theorem web_lock_stream:
  assumes "l = lock_run (observeWebLock name) (LockSubscribe # evs)"
  shows "(request l = Queued \<longrightarrow>
            delivered l = []
          \<and> request (lock_step l Grant) = Held
          \<and> (\<forall>later. delivered (lock_run (lock_step l Grant) later) = [Next ()])
          \<and> (\<forall>later. request (lock_run (lock_step l LockUnsubscribe) later) = Aborted
                    \<and> delivered (lock_run (lock_step l LockUnsubscribe) later) = [])
          \<and> delivered (lock_step l (Reject e)) = [Error e])
       \<and> (request l = Held \<longrightarrow>
            delivered l = [Next ()] \<and> request (lock_step l LockUnsubscribe) = Released)"
proof -
  have "lock_inv (observeWebLock name)"
    by (simp add: lock_inv_def observeWebLock_def)
  then have inv: "lock_inv l"
    unfolding assms by (rule lock_run_inv)
  show ?thesis
  proof (intro conjI impI allI)
    assume q: "request l = Queued"
    with inv have o: "\<not> lock_closed l" "delivered l = []"
      by (simp_all add: lock_inv_def)
    show "delivered l = []" by fact
    show "request (lock_step l Grant) = Held"
      using q o by (simp add: lock_defs)
    show "delivered (lock_run (lock_step l Grant) later) = [Next ()]" for later
      using q o granted_keeps[of "lock_step l Grant" later] by (simp add: lock_defs)
    show "request (lock_run (lock_step l LockUnsubscribe) later) = Aborted" for later
      using q o aborted_stays[of "lock_step l LockUnsubscribe" later] by (simp add: lock_defs)
    show "delivered (lock_run (lock_step l LockUnsubscribe) later) = []" for later
      using q o aborted_stays[of "lock_step l LockUnsubscribe" later] by (simp add: lock_defs)
    show "delivered (lock_step l (Reject e)) = [Error e]"
      using q o by (simp add: lock_defs)
  next
    assume h: "request l = Held"
    with inv have o: "\<not> lock_closed l" "delivered l = [Next ()]"
      by (simp_all add: lock_inv_def)
    show "delivered l = [Next ()]" by fact
    show "request (lock_step l LockUnsubscribe) = Released"
      using h o by (simp add: lock_defs)
  qed
qed

theorem web_lock_stream_witness:
  "delivered (lock_run (observeWebLock ''leader'') [LockSubscribe]) = []
   \<and> delivered (lock_run (observeWebLock ''leader'') [LockSubscribe, Grant, LockUnsubscribe, Grant])
       = [Next ()]
   \<and> request (lock_run (observeWebLock ''leader'') [LockSubscribe, Grant, LockUnsubscribe]) = Released
   \<and> request (lock_run (observeWebLock ''leader'') [LockSubscribe, LockUnsubscribe, Grant]) = Aborted
   \<and> delivered (lock_run (observeWebLock ''leader'') [LockSubscribe, LockUnsubscribe, Grant]) = []
   \<and> delivered (lock_run (observeWebLock ''leader'') [LockSubscribe, Reject ''denied'']) = [Error ''denied'']"
  using web_lock_stream[of "lock_run (observeWebLock ''leader'') [LockSubscribe]" "''leader''" "[]" "''denied''"]
    web_lock_stream[of "lock_run (observeWebLock ''leader'') [LockSubscribe, Grant]" "''leader''" "[Grant]" "''denied''"]
  by (simp add: lock_run_def observeWebLock_def lock_defs)

end
